theory Spec2Isabelle
  imports Main
begin

section \<open>The node tree (package html) and the selector matcher (package cascadia)\<close>

text \<open>
  A \<^verbatim>\<open>*html.Node\<close> is an address or nil. The tree lives in a heap that maps every
  address to the fields of the node stored there; only the fields traversal.go reads
  are kept. Nothing in the type forces the links to form a tree: a heap may be cyclic,
  and then the loops of traversal.go need not return.
\<close>

type_synonym addr = nat
type_synonym node_ptr = "addr option"

datatype NodeType = ErrorNode | TextNode | DocumentNode | ElementNode | CommentNode | DoctypeNode

record html_Node =
  Parent :: node_ptr
  FirstChild :: node_ptr
  PrevSibling :: node_ptr
  NextSibling :: node_ptr
  Type :: NodeType

type_synonym heap = "addr \<Rightarrow> html_Node"

text \<open>
  A compiled selector offers \<^verbatim>\<open>Match\<close> and \<^verbatim>\<open>MatchAll\<close>. The compiler is a parameter
  of the model: it maps a selector text to a compiled selector, or to nothing when the
  text has a syntax error, in which case \<^verbatim>\<open>cascadia.MustCompile\<close> panics.
\<close>

record Selector =
  Match :: "node_ptr \<Rightarrow> bool"
  MatchAll :: "node_ptr \<Rightarrow> node_ptr list"

type_synonym cascadia = "string \<Rightarrow> Selector option"

text \<open>
  Panics are values. A computation yields \<open>None\<close> when it does not return,
  \<open>Some (Inl e)\<close> when it panics with \<open>e\<close> and \<open>Some (Inr v)\<close> when it returns \<open>v\<close>.
\<close>

datatype error = NilDereference | InvalidSiblingType | SelectorSyntax

type_synonym 'a result = "(error + 'a) option"

definition MustCompile :: "cascadia \<Rightarrow> string \<Rightarrow> error + Selector" where
  "MustCompile cas selector =
     (case cas selector of None \<Rightarrow> Inl SelectorSyntax | Some cs \<Rightarrow> Inr cs)"

section \<open>Helpers of the package that traversal.go calls\<close>

text \<open>
  Modelled from the spec: \<^verbatim>\<open>isInSlice\<close> is not in traversal.go. Node references are
  compared by identity (section 3 of the specification).
\<close>

definition isInSlice :: "node_ptr list \<Rightarrow> node_ptr \<Rightarrow> bool" where
  "isInSlice slice node = (node \<in> set slice)"

text \<open>
  Modelled from the spec: \<^verbatim>\<open>appendWithoutDuplicates\<close> is not in traversal.go. Section 4.2:
  a candidate already present (by identity) anywhere in the accumulated result is
  dropped, otherwise appended at the end.
\<close>

fun appendWithoutDuplicates :: "node_ptr list \<Rightarrow> node_ptr list \<Rightarrow> node_ptr list" where
  "appendWithoutDuplicates target [] = target"
| "appendWithoutDuplicates target (n # nodes) =
     appendWithoutDuplicates (if isInSlice target n then target else target @ [n]) nodes"

text \<open>
  Modelled from the spec: \<^verbatim>\<open>Selection.Is\<close> and \<^verbatim>\<open>newSingleSelection\<close> are not in
  traversal.go. \<^verbatim>\<open>Is\<close> is only called on \<^verbatim>\<open>newSingleSelection(n, nil)\<close>, where it is the
  selector match on \<open>n\<close> (section 4.3). It compiles its selector text and panics when
  that fails (section 7).
\<close>

definition Is :: "cascadia \<Rightarrow> node_ptr \<Rightarrow> string \<Rightarrow> error + bool" where
  "Is cas n selector =
     (case MustCompile cas selector of Inl e \<Rightarrow> Inl e | Inr cs \<Rightarrow> Inr (Match cs n))"

text \<open>
  Modelled from the spec: \<^verbatim>\<open>Selection.IsNodes\<close> is not in traversal.go. It is only
  called on \<^verbatim>\<open>newSingleSelection(n, nil)\<close>, where it is the membership of \<open>n\<close> in an
  explicit node set (section 4.3).
\<close>

definition IsNodes :: "node_ptr \<Rightarrow> node_ptr list \<Rightarrow> bool" where
  "IsNodes n nodes = isInSlice nodes n"

section \<open>traversal.go\<close>

subsection \<open>Sibling types\<close>

text \<open>\<^verbatim>\<open>siblingType\<close> is an int; the constants start at \<^verbatim>\<open>iota - 3\<close>.\<close>

type_synonym siblingType = int

definition siblingPrevUntil :: siblingType where "siblingPrevUntil = 0 - 3"
definition siblingPrevAll :: siblingType where "siblingPrevAll = 1 - 3"
definition siblingPrev :: siblingType where "siblingPrev = 2 - 3"
definition siblingAll :: siblingType where "siblingAll = 3 - 3"
definition siblingNext :: siblingType where "siblingNext = 4 - 3"
definition siblingNextAll :: siblingType where "siblingNextAll = 5 - 3"
definition siblingNextUntil :: siblingType where "siblingNextUntil = 6 - 3"
definition siblingAllIncludingNonElements :: siblingType where
  "siblingAllIncludingNonElements = 7 - 3"

subsection \<open>mapNodes\<close>

text \<open>
  The range loop of \<^verbatim>\<open>mapNodes\<close>, from index \<open>i\<close> on, with the result accumulated so
  far. The callback may panic or not return; either ends the loop.
\<close>

fun mapNodes_loop ::
  "nat \<Rightarrow> node_ptr list \<Rightarrow> (nat \<Rightarrow> node_ptr \<Rightarrow> node_ptr list result) \<Rightarrow> node_ptr list
     \<Rightarrow> node_ptr list result" where
  "mapNodes_loop i [] f result = Some (Inr result)"
| "mapNodes_loop i (n # nodes) f result =
     (case f i n of
        None \<Rightarrow> None
      | Some (Inl e) \<Rightarrow> Some (Inl e)
      | Some (Inr vals) \<Rightarrow>
          mapNodes_loop (Suc i) nodes f
            (if length vals > 0 then appendWithoutDuplicates result vals else result))"

definition mapNodes ::
  "node_ptr list \<Rightarrow> (nat \<Rightarrow> node_ptr \<Rightarrow> node_ptr list result) \<Rightarrow> node_ptr list result" where
  "mapNodes nodes f = mapNodes_loop 0 nodes f []"

subsection \<open>getChildrenWithSiblingType\<close>

text \<open>
  The \<^verbatim>\<open>switch st\<close> of the iterator closure: the next raw position after \<open>cur\<close>
  (\<open>None\<close> is the first iteration). Reading a field of a nil \<open>parent\<close> or \<open>skipNode\<close>
  panics, and so does an unknown sibling type.
\<close>

definition iter_switch ::
  "heap \<Rightarrow> node_ptr \<Rightarrow> siblingType \<Rightarrow> node_ptr \<Rightarrow> node_ptr \<Rightarrow> error + node_ptr" where
  "iter_switch h parent st skipNode cur =
     (if st = siblingAll \<or> st = siblingAllIncludingNonElements then
        (case cur of
           None \<Rightarrow>
             (case parent of
                None \<Rightarrow> Inl NilDereference
              | Some p \<Rightarrow>
                  (let ret = FirstChild (h p) in
                   case skipNode of
                     None \<Rightarrow> Inr ret
                   | Some s \<Rightarrow> if ret = skipNode then Inr (NextSibling (h s)) else Inr ret))
         | Some c \<Rightarrow>
             (let ret = NextSibling (h c) in
              case skipNode of
                None \<Rightarrow> Inr ret
              | Some s \<Rightarrow> if ret = skipNode then Inr (NextSibling (h s)) else Inr ret))
      else if st = siblingPrev \<or> st = siblingPrevAll \<or> st = siblingPrevUntil then
        (case cur of
           None \<Rightarrow>
             (case skipNode of
                None \<Rightarrow> Inl NilDereference
              | Some s \<Rightarrow> Inr (PrevSibling (h s)))
         | Some c \<Rightarrow> Inr (PrevSibling (h c)))
      else if st = siblingNext \<or> st = siblingNextAll \<or> st = siblingNextUntil then
        (case cur of
           None \<Rightarrow>
             (case skipNode of
                None \<Rightarrow> Inl NilDereference
              | Some s \<Rightarrow> Inr (NextSibling (h s)))
         | Some c \<Rightarrow> Inr (NextSibling (h c)))
      else Inl InvalidSiblingType)"

text \<open>
  The iterator closure \<^verbatim>\<open>iter\<close>: its endless \<^verbatim>\<open>for\<close> loop repeats the switch until the
  position is nil, an element, or anything at all in mode
  \<^verbatim>\<open>siblingAllIncludingNonElements\<close>.
\<close>

partial_function (option) iter ::
  "heap \<Rightarrow> node_ptr \<Rightarrow> siblingType \<Rightarrow> node_ptr \<Rightarrow> node_ptr \<Rightarrow> node_ptr result" where
  "iter h parent st skipNode cur =
     (case iter_switch h parent st skipNode cur of
        Inl e \<Rightarrow> Some (Inl e)
      | Inr ret \<Rightarrow>
          (case ret of
             None \<Rightarrow> Some (Inr ret)
           | Some r \<Rightarrow>
               if Type (h r) = ElementNode \<or> st = siblingAllIncludingNonElements
               then Some (Inr ret)
               else iter h parent st skipNode ret))"

text \<open>
  The test at the head of the main loop's body. \<^verbatim>\<open>untilFunc\<close> is a function value
  that may be nil; calling nil panics. The function itself may panic.
\<close>

definition until_reached ::
  "siblingType \<Rightarrow> (node_ptr \<Rightarrow> error + bool) option \<Rightarrow> node_ptr \<Rightarrow> error + bool" where
  "until_reached st untilFunc c =
     (if st = siblingNextUntil \<or> st = siblingPrevUntil then
        (case untilFunc of None \<Rightarrow> Inl NilDereference | Some f \<Rightarrow> f c)
      else Inr False)"

text \<open>The main loop \<^verbatim>\<open>for c := iter(nil); c != nil; c = iter(c)\<close>, entered at \<open>c\<close>.\<close>

partial_function (option) children_loop ::
  "heap \<Rightarrow> node_ptr \<Rightarrow> siblingType \<Rightarrow> node_ptr \<Rightarrow> (node_ptr \<Rightarrow> error + bool) option
     \<Rightarrow> node_ptr \<Rightarrow> node_ptr list \<Rightarrow> node_ptr list result" where
  "children_loop h parent st skipNode untilFunc c result =
     (case c of
        None \<Rightarrow> Some (Inr result)
      | Some a \<Rightarrow>
          (case until_reached st untilFunc c of
             Inl e \<Rightarrow> Some (Inl e)
           | Inr reached \<Rightarrow>
               if reached then Some (Inr result)
               else if st = siblingNext \<or> st = siblingPrev then Some (Inr (result @ [c]))
               else
                 Option.bind (iter h parent st skipNode c)
                   (\<lambda>r. case r of
                      Inl e \<Rightarrow> Some (Inl e)
                    | Inr c' \<Rightarrow>
                        children_loop h parent st skipNode untilFunc c' (result @ [c]))))"

definition getChildrenWithSiblingType ::
  "heap \<Rightarrow> node_ptr \<Rightarrow> siblingType \<Rightarrow> node_ptr \<Rightarrow> (node_ptr \<Rightarrow> error + bool) option
     \<Rightarrow> node_ptr list result" where
  "getChildrenWithSiblingType h parent st skipNode untilFunc =
     Option.bind (iter h parent st skipNode None)
       (\<lambda>r. case r of
          Inl e \<Rightarrow> Some (Inl e)
        | Inr c \<Rightarrow> children_loop h parent st skipNode untilFunc c [])"

subsection \<open>getSiblingNodes, getChildrenNodes, getParentNodes\<close>

text \<open>
  The until test that \<^verbatim>\<open>getSiblingNodes\<close> builds for the two Until sibling types:
  the selector when its text is not empty, else the node set when it is not empty,
  else false.
\<close>

definition getSiblingNodes_until ::
  "cascadia \<Rightarrow> string \<Rightarrow> node_ptr list \<Rightarrow> node_ptr \<Rightarrow> error + bool" where
  "getSiblingNodes_until cas untilSelector untilNodes n =
     (if untilSelector \<noteq> [] then Is cas n untilSelector
      else if length untilNodes > 0 then Inr (IsNodes n untilNodes)
      else Inr False)"

definition getSiblingNodes ::
  "cascadia \<Rightarrow> heap \<Rightarrow> node_ptr list \<Rightarrow> siblingType \<Rightarrow> string \<Rightarrow> node_ptr list
     \<Rightarrow> node_ptr list result" where
  "getSiblingNodes cas h nodes st untilSelector untilNodes =
     (let f = (if st = siblingNextUntil \<or> st = siblingPrevUntil
               then Some (getSiblingNodes_until cas untilSelector untilNodes)
               else None)
      in mapNodes nodes
           (\<lambda>i n. case n of
              None \<Rightarrow> Some (Inl NilDereference)
            | Some a \<Rightarrow> getChildrenWithSiblingType h (Parent (h a)) st n f))"

definition getChildrenNodes :: "heap \<Rightarrow> node_ptr list \<Rightarrow> siblingType \<Rightarrow> node_ptr list result" where
  "getChildrenNodes h nodes st =
     mapNodes nodes (\<lambda>i n. getChildrenWithSiblingType h n st None None)"

definition getParentNodes :: "heap \<Rightarrow> node_ptr list \<Rightarrow> node_ptr list result" where
  "getParentNodes h nodes =
     mapNodes nodes
       (\<lambda>i n. case n of
          None \<Rightarrow> Some (Inl NilDereference)
        | Some a \<Rightarrow>
            (case Parent (h a) of
               None \<Rightarrow> Some (Inr [])
             | Some p \<Rightarrow>
                 if Type (h p) = ElementNode then Some (Inr [Parent (h a)])
                 else Some (Inr [])))"

subsection \<open>getParentsNodes\<close>

text \<open>The stop test made at each ancestor \<open>p\<close>, on \<^verbatim>\<open>newSingleSelection(p, nil)\<close>.\<close>

definition getParentsNodes_stop ::
  "cascadia \<Rightarrow> string \<Rightarrow> node_ptr list \<Rightarrow> node_ptr \<Rightarrow> error + bool" where
  "getParentsNodes_stop cas stopSelector stopNodes p =
     (if stopSelector \<noteq> [] then Is cas p stopSelector
      else if length stopNodes > 0 then Inr (IsNodes p stopNodes)
      else Inr False)"

text \<open>The loop \<^verbatim>\<open>for p := n.Parent; p != nil; p = p.Parent\<close>, entered at \<open>p\<close>.\<close>

partial_function (option) parents_loop ::
  "cascadia \<Rightarrow> heap \<Rightarrow> string \<Rightarrow> node_ptr list \<Rightarrow> node_ptr \<Rightarrow> node_ptr list
     \<Rightarrow> node_ptr list result" where
  "parents_loop cas h stopSelector stopNodes p result =
     (case p of
        None \<Rightarrow> Some (Inr result)
      | Some a \<Rightarrow>
          (case getParentsNodes_stop cas stopSelector stopNodes p of
             Inl e \<Rightarrow> Some (Inl e)
           | Inr stop \<Rightarrow>
               if stop then Some (Inr result)
               else parents_loop cas h stopSelector stopNodes (Parent (h a))
                      (if Type (h a) = ElementNode then result @ [p] else result)))"

definition getParentsNodes ::
  "cascadia \<Rightarrow> heap \<Rightarrow> node_ptr list \<Rightarrow> string \<Rightarrow> node_ptr list \<Rightarrow> node_ptr list result" where
  "getParentsNodes cas h nodes stopSelector stopNodes =
     mapNodes nodes
       (\<lambda>i n. case n of
          None \<Rightarrow> Some (Inl NilDereference)
        | Some a \<Rightarrow> parents_loop cas h stopSelector stopNodes (Parent (h a)) [])"

subsection \<open>findWithSelector\<close>

text \<open>The loop \<^verbatim>\<open>for c := n.FirstChild; c != nil; c = c.NextSibling\<close>, entered at \<open>c\<close>.\<close>

partial_function (option) find_loop ::
  "heap \<Rightarrow> Selector \<Rightarrow> node_ptr \<Rightarrow> node_ptr list \<Rightarrow> node_ptr list result" where
  "find_loop h sel c result =
     (case c of
        None \<Rightarrow> Some (Inr result)
      | Some a \<Rightarrow>
          find_loop h sel (NextSibling (h a))
            (if Type (h a) = ElementNode then result @ MatchAll sel c else result))"

text \<open>The callback that \<^verbatim>\<open>findWithSelector\<close> hands to \<^verbatim>\<open>mapNodes\<close>.\<close>

definition findWithSelector_func :: "heap \<Rightarrow> Selector \<Rightarrow> nat \<Rightarrow> node_ptr \<Rightarrow> node_ptr list result" where
  "findWithSelector_func h sel i n =
     (case n of
        None \<Rightarrow> Some (Inl NilDereference)
      | Some a \<Rightarrow> find_loop h sel (FirstChild (h a)) [])"

definition findWithSelector ::
  "cascadia \<Rightarrow> heap \<Rightarrow> node_ptr list \<Rightarrow> string \<Rightarrow> node_ptr list result" where
  "findWithSelector cas h nodes selector =
     (case MustCompile cas selector of
        Inl e \<Rightarrow> Some (Inl e)
      | Inr sel \<Rightarrow> mapNodes nodes (findWithSelector_func h sel))"

subsection \<open>The Selection methods\<close>

text \<open>
  A Selection holds its nodes, a pointer to its document and the selection it was
  derived from. The methods are modelled for a receiver that is not nil; a Selection
  argument is a pointer and may be nil.
\<close>

datatype Selection =
  Selection (Nodes: "node_ptr list") (document: "nat option") (prevSel: "Selection option")

text \<open>
  Modelled from the spec: \<^verbatim>\<open>pushStack\<close> is not in traversal.go. Section 6: the
  resulting node set is wrapped in a public selection object; the new Selection holds
  the nodes given, the document of the source selection, and the source selection as
  its predecessor.
\<close>

definition pushStack :: "Selection \<Rightarrow> node_ptr list \<Rightarrow> Selection" where
  "pushStack fromSel nodes = Selection nodes (document fromSel) (Some fromSel)"

text \<open>\<^verbatim>\<open>pushStack(s, e)\<close> where evaluating \<open>e\<close> may panic or not return.\<close>

definition pushStack_of :: "Selection \<Rightarrow> node_ptr list result \<Rightarrow> Selection result" where
  "pushStack_of s r =
     (case r of
        None \<Rightarrow> None
      | Some (Inl e) \<Rightarrow> Some (Inl e)
      | Some (Inr nodes) \<Rightarrow> Some (Inr (pushStack s nodes)))"

definition Find :: "cascadia \<Rightarrow> heap \<Rightarrow> Selection \<Rightarrow> string \<Rightarrow> Selection result" where
  "Find cas h s selector = pushStack_of s (findWithSelector cas h (Nodes s) selector)"

text \<open>
  \<^verbatim>\<open>sliceContains\<close> is not in traversal.go and the specification does not describe it:
  it is a parameter of \<^verbatim>\<open>FindNodes\<close>.
\<close>

definition FindNodes ::
  "(node_ptr list \<Rightarrow> node_ptr \<Rightarrow> bool result) \<Rightarrow> Selection \<Rightarrow> node_ptr list \<Rightarrow> Selection result" where
  "FindNodes sliceContains s nodes =
     pushStack_of s
       (mapNodes nodes
          (\<lambda>i n. case sliceContains (Nodes s) n of
             None \<Rightarrow> None
           | Some (Inl e) \<Rightarrow> Some (Inl e)
           | Some (Inr b) \<Rightarrow> if b then Some (Inr [n]) else Some (Inr [])))"

definition FindSelection ::
  "(node_ptr list \<Rightarrow> node_ptr \<Rightarrow> bool result) \<Rightarrow> Selection \<Rightarrow> Selection option \<Rightarrow> Selection result" where
  "FindSelection sliceContains s sel =
     (case sel of
        None \<Rightarrow> pushStack_of s (Some (Inr []))
      | Some sl \<Rightarrow> FindNodes sliceContains s (Nodes sl))"

definition Contents :: "heap \<Rightarrow> Selection \<Rightarrow> Selection result" where
  "Contents h s = pushStack_of s (getChildrenNodes h (Nodes s) siblingAllIncludingNonElements)"

definition Children :: "heap \<Rightarrow> Selection \<Rightarrow> Selection result" where
  "Children h s = pushStack_of s (getChildrenNodes h (Nodes s) siblingAll)"

text \<open>
  The loop \<^verbatim>\<open>for ; n != nil; n = n.Parent\<close> of \<^verbatim>\<open>Closest\<close> and \<^verbatim>\<open>ClosestNodes\<close>, with
  the match test as a parameter.
\<close>

partial_function (option) closest_loop ::
  "heap \<Rightarrow> (node_ptr \<Rightarrow> bool) \<Rightarrow> node_ptr \<Rightarrow> node_ptr list result" where
  "closest_loop h test n =
     (case n of
        None \<Rightarrow> Some (Inr [])
      | Some a \<Rightarrow> if test n then Some (Inr [n]) else closest_loop h test (Parent (h a)))"

definition Closest :: "cascadia \<Rightarrow> heap \<Rightarrow> Selection \<Rightarrow> string \<Rightarrow> Selection result" where
  "Closest cas h s selector =
     (case MustCompile cas selector of
        Inl e \<Rightarrow> Some (Inl e)
      | Inr cs \<Rightarrow> pushStack_of s (mapNodes (Nodes s) (\<lambda>i n. closest_loop h (Match cs) n)))"

definition ClosestNodes :: "heap \<Rightarrow> Selection \<Rightarrow> node_ptr list \<Rightarrow> Selection result" where
  "ClosestNodes h s nodes =
     pushStack_of s (mapNodes (Nodes s) (\<lambda>i n. closest_loop h (isInSlice nodes) n))"

definition ClosestSelection :: "heap \<Rightarrow> Selection \<Rightarrow> Selection option \<Rightarrow> Selection result" where
  "ClosestSelection h s sel =
     (case sel of
        None \<Rightarrow> pushStack_of s (Some (Inr []))
      | Some sl \<Rightarrow> ClosestNodes h s (Nodes sl))"

definition Parents :: "cascadia \<Rightarrow> heap \<Rightarrow> Selection \<Rightarrow> Selection result" where
  "Parents cas h s = pushStack_of s (getParentsNodes cas h (Nodes s) [] [])"

definition ParentsUntil :: "cascadia \<Rightarrow> heap \<Rightarrow> Selection \<Rightarrow> string \<Rightarrow> Selection result" where
  "ParentsUntil cas h s selector = pushStack_of s (getParentsNodes cas h (Nodes s) selector [])"

definition ParentsUntilNodes ::
  "cascadia \<Rightarrow> heap \<Rightarrow> Selection \<Rightarrow> node_ptr list \<Rightarrow> Selection result" where
  "ParentsUntilNodes cas h s nodes = pushStack_of s (getParentsNodes cas h (Nodes s) [] nodes)"

definition ParentsUntilSelection ::
  "cascadia \<Rightarrow> heap \<Rightarrow> Selection \<Rightarrow> Selection option \<Rightarrow> Selection result" where
  "ParentsUntilSelection cas h s sel =
     (case sel of
        None \<Rightarrow> Parents cas h s
      | Some sl \<Rightarrow> ParentsUntilNodes cas h s (Nodes sl))"

definition Siblings :: "cascadia \<Rightarrow> heap \<Rightarrow> Selection \<Rightarrow> Selection result" where
  "Siblings cas h s = pushStack_of s (getSiblingNodes cas h (Nodes s) siblingAll [] [])"

definition Next :: "cascadia \<Rightarrow> heap \<Rightarrow> Selection \<Rightarrow> Selection result" where
  "Next cas h s = pushStack_of s (getSiblingNodes cas h (Nodes s) siblingNext [] [])"

definition NextAll :: "cascadia \<Rightarrow> heap \<Rightarrow> Selection \<Rightarrow> Selection result" where
  "NextAll cas h s = pushStack_of s (getSiblingNodes cas h (Nodes s) siblingNextAll [] [])"

definition Prev :: "cascadia \<Rightarrow> heap \<Rightarrow> Selection \<Rightarrow> Selection result" where
  "Prev cas h s = pushStack_of s (getSiblingNodes cas h (Nodes s) siblingPrev [] [])"

definition PrevAll :: "cascadia \<Rightarrow> heap \<Rightarrow> Selection \<Rightarrow> Selection result" where
  "PrevAll cas h s = pushStack_of s (getSiblingNodes cas h (Nodes s) siblingPrevAll [] [])"

definition NextUntil :: "cascadia \<Rightarrow> heap \<Rightarrow> Selection \<Rightarrow> string \<Rightarrow> Selection result" where
  "NextUntil cas h s selector =
     pushStack_of s (getSiblingNodes cas h (Nodes s) siblingNextUntil selector [])"

definition NextUntilNodes ::
  "cascadia \<Rightarrow> heap \<Rightarrow> Selection \<Rightarrow> node_ptr list \<Rightarrow> Selection result" where
  "NextUntilNodes cas h s nodes =
     pushStack_of s (getSiblingNodes cas h (Nodes s) siblingNextUntil [] nodes)"

definition NextUntilSelection ::
  "cascadia \<Rightarrow> heap \<Rightarrow> Selection \<Rightarrow> Selection option \<Rightarrow> Selection result" where
  "NextUntilSelection cas h s sel =
     (case sel of
        None \<Rightarrow> NextAll cas h s
      | Some sl \<Rightarrow> NextUntilNodes cas h s (Nodes sl))"

definition PrevUntil :: "cascadia \<Rightarrow> heap \<Rightarrow> Selection \<Rightarrow> string \<Rightarrow> Selection result" where
  "PrevUntil cas h s selector =
     pushStack_of s (getSiblingNodes cas h (Nodes s) siblingPrevUntil selector [])"

definition PrevUntilNodes ::
  "cascadia \<Rightarrow> heap \<Rightarrow> Selection \<Rightarrow> node_ptr list \<Rightarrow> Selection result" where
  "PrevUntilNodes cas h s nodes =
     pushStack_of s (getSiblingNodes cas h (Nodes s) siblingPrevUntil [] nodes)"

definition PrevUntilSelection ::
  "cascadia \<Rightarrow> heap \<Rightarrow> Selection \<Rightarrow> Selection option \<Rightarrow> Selection result" where
  "PrevUntilSelection cas h s sel =
     (case sel of
        None \<Rightarrow> PrevAll cas h s
      | Some sl \<Rightarrow> PrevUntilNodes cas h s (Nodes sl))"

section \<open>Vocabulary of the properties\<close>

text \<open>
  \<open>chain lnk p xs\<close>: following the link \<open>lnk\<close> from the pointer \<open>p\<close> visits exactly the
  nodes \<open>xs\<close>, in this order, and then reaches nil. This is how a well-formed tree
  presents a sibling list (links \<^verbatim>\<open>NextSibling\<close> or \<^verbatim>\<open>PrevSibling\<close>) or the ancestors
  of a node (link \<^verbatim>\<open>Parent\<close>).
\<close>

fun chain :: "(addr \<Rightarrow> node_ptr) \<Rightarrow> node_ptr \<Rightarrow> addr list \<Rightarrow> bool" where
  "chain lnk p [] = (p = None)"
| "chain lnk p (x # xs) = (p = Some x \<and> chain lnk (lnk x) xs)"

definition next_of :: "heap \<Rightarrow> addr \<Rightarrow> node_ptr" where
  "next_of h a = NextSibling (h a)"

definition prev_of :: "heap \<Rightarrow> addr \<Rightarrow> node_ptr" where
  "prev_of h a = PrevSibling (h a)"

definition parent_of :: "heap \<Rightarrow> addr \<Rightarrow> node_ptr" where
  "parent_of h a = Parent (h a)"

text \<open>The link a directional sibling walk follows: backward for the three Prev types.\<close>

definition walk_link :: "heap \<Rightarrow> siblingType \<Rightarrow> addr \<Rightarrow> node_ptr" where
  "walk_link h st a =
     (if st = siblingPrev \<or> st = siblingPrevAll \<or> st = siblingPrevUntil
      then PrevSibling (h a) else NextSibling (h a))"

text \<open>The link of the children modes: forward, stepping over the skip node.\<close>

definition skip_link :: "heap \<Rightarrow> node_ptr \<Rightarrow> addr \<Rightarrow> node_ptr" where
  "skip_link h skipNode a =
     (case skipNode of
        None \<Rightarrow> next_of h a
      | Some s \<Rightarrow> if next_of h a = Some s then next_of h s else next_of h a)"

text \<open>
  \<open>prev_links h q xs\<close>: the \<^verbatim>\<open>PrevSibling\<close> of each node of \<open>xs\<close> is its predecessor in
  \<open>xs\<close>, and that of the first one is \<open>q\<close>.
\<close>

fun prev_links :: "heap \<Rightarrow> node_ptr \<Rightarrow> addr list \<Rightarrow> bool" where
  "prev_links h q [] = True"
| "prev_links h q (x # xs) = (PrevSibling (h x) = q \<and> prev_links h (Some x) xs)"

definition is_element :: "heap \<Rightarrow> addr \<Rightarrow> bool" where
  "is_element h a = (Type (h a) = ElementNode)"

text \<open>The node-kind filter of a walk of type \<open>st\<close>.\<close>

definition kept :: "heap \<Rightarrow> siblingType \<Rightarrow> addr \<Rightarrow> bool" where
  "kept h st a = (Type (h a) = ElementNode \<or> st = siblingAllIncludingNonElements)"

text \<open>What the main loop makes of the list of candidates, by sibling type.\<close>

fun collect :: "siblingType \<Rightarrow> (node_ptr \<Rightarrow> bool) \<Rightarrow> addr list \<Rightarrow> addr list" where
  "collect st g [] = []"
| "collect st g (c # cs) =
     (if (st = siblingNextUntil \<or> st = siblingPrevUntil) \<and> g (Some c) then []
      else if st = siblingNext \<or> st = siblingPrev then [c]
      else c # collect st g cs)"

text \<open>
  The specification's merge order: every element stays at its first occurrence and
  its later occurrences are dropped.
\<close>

fun keep_first :: "'a list \<Rightarrow> 'a list" where
  "keep_first [] = []"
| "keep_first (x # xs) = x # keep_first (removeAll x xs)"

text \<open>\<open>strict_desc h x n\<close>: \<open>n\<close> is reached from \<open>x\<close> by one or more \<^verbatim>\<open>Parent\<close> links.\<close>

inductive strict_desc :: "heap \<Rightarrow> addr \<Rightarrow> addr \<Rightarrow> bool" for h :: heap where
  child: "Parent (h x) = Some n \<Longrightarrow> strict_desc h x n"
| below: "Parent (h x) = Some p \<Longrightarrow> strict_desc h p n \<Longrightarrow> strict_desc h x n"

code_pred strict_desc .

section \<open>An example document\<close>

text \<open>
  \<^verbatim>\<open><div><!--c--><p><b><i/></b></p>text<span/><em/></div>\<close> under a document node.
  Address 0 is the document, 1 the div, 2 the comment, 3 the p, 4 the text, 5 the
  span, 6 the em, 7 the b and 8 the i. Every other address holds a node without links.
\<close>

definition mk_node ::
  "node_ptr \<Rightarrow> node_ptr \<Rightarrow> node_ptr \<Rightarrow> node_ptr \<Rightarrow> NodeType \<Rightarrow> html_Node" where
  "mk_node pa fc ps ns ty =
     \<lparr>Parent = pa, FirstChild = fc, PrevSibling = ps, NextSibling = ns, Type = ty\<rparr>"

definition doc :: heap where
  "doc a =
     (if a = 0 then mk_node None (Some 1) None None DocumentNode
      else if a = 1 then mk_node (Some 0) (Some 2) None None ElementNode
      else if a = 2 then mk_node (Some 1) None None (Some 3) CommentNode
      else if a = 3 then mk_node (Some 1) (Some 7) (Some 2) (Some 4) ElementNode
      else if a = 4 then mk_node (Some 1) None (Some 3) (Some 5) TextNode
      else if a = 5 then mk_node (Some 1) None (Some 4) (Some 6) ElementNode
      else if a = 6 then mk_node (Some 1) None (Some 5) None ElementNode
      else if a = 7 then mk_node (Some 3) (Some 8) None None ElementNode
      else if a = 8 then mk_node (Some 7) None None None ElementNode
      else mk_node None None None None ErrorNode)"

text \<open>
  A matcher that knows one selector text, \<open>''p, i, div''\<close>, matching the nodes 1, 3 and 8.
\<close>

definition sel_p_i_div :: Selector where
  "sel_p_i_div =
     \<lparr>Match = (\<lambda>n. n = Some 1 \<or> n = Some 3 \<or> n = Some 8),
      MatchAll = (\<lambda>n. if n = Some 0 \<or> n = Some 1 then [Some 1, Some 3, Some 8]
                       else if n = Some 3 then [Some 3, Some 8]
                       else if n = Some 7 \<or> n = Some 8 then [Some 8]
                       else [])\<rparr>"

definition matcher :: cascadia where
  "matcher text = (if text = ''p, i, div'' then Some sel_p_i_div else None)"

section \<open>Sibling types and chains\<close>

lemmas siblingType_defs =
  siblingPrevUntil_def siblingPrevAll_def siblingPrev_def siblingAll_def
  siblingNext_def siblingNextAll_def siblingNextUntil_def
  siblingAllIncludingNonElements_def

lemma chain_unique: "chain lnk p xs \<Longrightarrow> chain lnk p ys \<Longrightarrow> xs = ys"
proof (induction xs arbitrary: p ys)
  case Nil
  then show ?case by (cases ys) auto
next
  case (Cons x xs)
  then show ?case by (cases ys) auto
qed

lemma chain_suffix: "chain lnk p (xs @ y # ys) \<Longrightarrow> chain lnk (lnk y) ys"
  by (induction xs arbitrary: p) auto

lemma chain_distinct: "chain lnk p xs \<Longrightarrow> distinct xs"
proof (induction xs arbitrary: p)
  case Nil
  then show ?case by simp
next
  case (Cons x xs)
  have tl: "chain lnk (lnk x) xs" using Cons.prems by simp
  have "x \<notin> set xs"
  proof
    assume "x \<in> set xs"
    then obtain as bs where xs: "xs = as @ x # bs" by (auto dest: split_list)
    with tl have "chain lnk (lnk x) bs" by (auto dest: chain_suffix)
    with tl have "xs = bs" by (rule chain_unique)
    with xs show False by simp
  qed
  with Cons.IH [OF tl] show ?case by simp
qed

lemma chain_self_notin: "chain lnk (lnk n) xs \<Longrightarrow> n \<notin> set xs"
proof -
  assume "chain lnk (lnk n) xs"
  then have "chain lnk (Some n) (n # xs)" by simp
  then have "distinct (n # xs)" by (rule chain_distinct)
  then show ?thesis by simp
qed

text \<open>Stepping over the skip node visits the chain without that node.\<close>

lemma chain_skip_absent:
  "chain (next_of h) q xs \<Longrightarrow> s \<notin> set xs \<Longrightarrow> chain (skip_link h (Some s)) q xs"
proof (induction xs arbitrary: q)
  case Nil
  then show ?case by simp
next
  case (Cons x xs)
  then have tl: "chain (next_of h) (next_of h x) xs" by simp
  have "next_of h x \<noteq> Some s" using tl Cons.prems(2) by (cases xs) auto
  then have "skip_link h (Some s) x = next_of h x" by (simp add: skip_link_def)
  then show ?case using Cons tl by simp
qed

lemma chain_skip:
  "chain (next_of h) q xs \<Longrightarrow>
     chain (skip_link h (Some s)) (if q = Some s then next_of h s else q) (removeAll s xs)"
proof (induction xs arbitrary: q)
  case Nil
  then show ?case by simp
next
  case (Cons x xs)
  then have q: "q = Some x" and tl: "chain (next_of h) (next_of h x) xs"
    by simp_all
  show ?case
  proof (cases "x = s")
    case True
    have "s \<notin> set xs" using tl True chain_self_notin [of "next_of h" s xs] by simp
    then show ?thesis using True q tl chain_skip_absent [of h "next_of h s" xs s]
      by simp
  next
    case False
    have e: "skip_link h (Some s) x = (if next_of h x = Some s then next_of h s else next_of h x)"
      by (simp add: skip_link_def)
    have "chain (skip_link h (Some s)) (skip_link h (Some s) x) (removeAll s xs)"
      unfolding e by (rule Cons.IH [OF tl])
    then show ?thesis using False q by simp
  qed
qed

lemma chain_skip_None: "chain (skip_link h None) q xs = chain (next_of h) q xs"
  by (induction xs arbitrary: q) (simp_all add: skip_link_def)


section \<open>The sibling walker computes a function of the chain\<close>

lemma iter_find:
  assumes sw: "\<And>c. iter_switch h parent st skipNode (Some c) = Inr (lnk c)"
  shows "iter_switch h parent st skipNode cur = Inr p \<Longrightarrow> chain lnk p xs \<Longrightarrow>
    iter h parent st skipNode cur = Some (Inr (find (kept h st) xs))"
proof (induction xs arbitrary: cur p)
  case Nil
  then show ?case by (subst iter.simps) simp
next
  case (Cons x xs)
  have p: "p = Some x" and tl: "chain lnk (lnk x) xs" using Cons.prems by simp_all
  show ?case
  proof (cases "kept h st x")
    case True
    then show ?thesis using Cons.prems(1) p
      by (subst iter.simps) (simp add: kept_def)
  next
    case False
    have "iter h parent st skipNode (Some x) = Some (Inr (find (kept h st) xs))"
      by (rule Cons.IH [OF sw tl])
    then show ?thesis using Cons.prems(1) p False
      by (subst iter.simps) (simp add: kept_def)
  qed
qed

lemma children_loop_collect:
  assumes sw: "\<And>c. iter_switch h parent st skipNode (Some c) = Inr (lnk c)"
  shows "chain lnk p ys \<Longrightarrow>
    (st = siblingNextUntil \<or> st = siblingPrevUntil \<longrightarrow>
       (\<exists>f. untilFunc = Some f \<and>
          (\<forall>a\<in>set ys. kept h st a \<longrightarrow> f (Some a) = Inr (g (Some a))))) \<Longrightarrow>
    children_loop h parent st skipNode untilFunc (find (kept h st) ys) result =
      Some (Inr (result @ map Some (collect st g (filter (kept h st) ys))))"
proof (induction ys arbitrary: p result)
  case Nil
  then show ?case by (subst children_loop.simps) simp
next
  case (Cons y ys)
  have tl: "chain lnk (lnk y) ys" using Cons.prems(1) by simp
  have uf: "st = siblingNextUntil \<or> st = siblingPrevUntil \<longrightarrow>
       (\<exists>f. untilFunc = Some f \<and>
          (\<forall>a\<in>set ys. kept h st a \<longrightarrow> f (Some a) = Inr (g (Some a))))"
    using Cons.prems(2) by auto
  show ?case
  proof (cases "kept h st y")
    case False
    then show ?thesis using Cons.IH [OF tl uf] by simp
  next
    case True
    have ur: "until_reached st untilFunc (Some y) =
        Inr ((st = siblingNextUntil \<or> st = siblingPrevUntil) \<and> g (Some y))"
      using Cons.prems(2) True by (auto simp: until_reached_def)
    have it: "iter h parent st skipNode (Some y) = Some (Inr (find (kept h st) ys))"
      by (rule iter_find [OF sw sw tl])
    show ?thesis using True
      by (subst children_loop.simps) (simp add: ur it Cons.IH [OF tl uf])
  qed
qed

lemma walk_collect:
  assumes sw: "\<And>c. iter_switch h parent st skipNode (Some c) = Inr (lnk c)"
    and uf: "st = siblingNextUntil \<or> st = siblingPrevUntil \<Longrightarrow>
       \<exists>f. untilFunc = Some f \<and> (\<forall>a\<in>set xs. kept h st a \<longrightarrow> f (Some a) = Inr (g (Some a)))"
    and start: "iter_switch h parent st skipNode None = Inr p"
    and ch: "chain lnk p xs"
  shows "getChildrenWithSiblingType h parent st skipNode untilFunc =
      Some (Inr (map Some (collect st g (filter (kept h st) xs))))"
  unfolding getChildrenWithSiblingType_def
proof -
  have "st = siblingNextUntil \<or> st = siblingPrevUntil \<longrightarrow>
       (\<exists>f. untilFunc = Some f \<and>
          (\<forall>a\<in>set xs. kept h st a \<longrightarrow> f (Some a) = Inr (g (Some a))))"
    using uf by blast
  from children_loop_collect [OF sw ch this, of "[]"] iter_find [OF sw start ch]
  show "Option.bind (iter h parent st skipNode None)
          (\<lambda>r. case r of
             Inl e \<Rightarrow> Some (Inl e)
           | Inr c \<Rightarrow> children_loop h parent st skipNode untilFunc c []) =
        Some (Inr (map Some (collect st g (filter (kept h st) xs))))"
    by simp
qed

lemma collect_all:
  "st \<noteq> siblingNextUntil \<Longrightarrow> st \<noteq> siblingPrevUntil \<Longrightarrow> st \<noteq> siblingNext \<Longrightarrow>
     st \<noteq> siblingPrev \<Longrightarrow> collect st g xs = xs"
  by (induction xs) simp_all

lemma collect_single:
  "st = siblingNext \<or> st = siblingPrev \<Longrightarrow> collect st g xs = take 1 xs"
  by (cases xs) (auto simp: siblingType_defs)

lemma collect_until:
  "st = siblingNextUntil \<or> st = siblingPrevUntil \<Longrightarrow>
     collect st g xs = takeWhile (\<lambda>a. \<not> g (Some a)) xs"
  by (induction xs) (auto simp: siblingType_defs)

lemma kept_element:
  "st \<noteq> siblingAllIncludingNonElements \<Longrightarrow> kept h st = is_element h"
  by (rule ext) (simp add: kept_def is_element_def)

lemma kept_any: "filter (kept h siblingAllIncludingNonElements) xs = xs"
  by (simp add: kept_def)

lemma walk_forward:
  assumes st: "st = siblingNext \<or> st = siblingNextAll \<or> st = siblingNextUntil"
    and uf: "st = siblingNextUntil \<Longrightarrow>
       \<exists>f. untilFunc = Some f \<and>
           (\<forall>a\<in>set xs. is_element h a \<longrightarrow> f (Some a) = Inr (g (Some a)))"
    and ch: "chain (next_of h) (next_of h n) xs"
  shows "getChildrenWithSiblingType h parent st (Some n) untilFunc =
      Some (Inr (map Some (collect st g (filter (is_element h) xs))))"
proof -
  have sw: "\<And>c. iter_switch h parent st (Some n) (Some c) = Inr (next_of h c)"
    using st by (auto simp: iter_switch_def next_of_def siblingType_defs)
  have start: "iter_switch h parent st (Some n) None = Inr (next_of h n)"
    using st by (auto simp: iter_switch_def next_of_def siblingType_defs)
  have k: "kept h st = is_element h"
    using st by (intro kept_element) (auto simp: siblingType_defs)
  have uf': "st = siblingNextUntil \<or> st = siblingPrevUntil \<Longrightarrow>
       \<exists>f. untilFunc = Some f \<and> (\<forall>a\<in>set xs. kept h st a \<longrightarrow> f (Some a) = Inr (g (Some a)))"
    using st uf unfolding k by (auto simp: siblingType_defs)
  show ?thesis using walk_collect [OF sw uf' start ch] by (simp add: k)
qed

lemma walk_backward:
  assumes st: "st = siblingPrev \<or> st = siblingPrevAll \<or> st = siblingPrevUntil"
    and uf: "st = siblingPrevUntil \<Longrightarrow>
       \<exists>f. untilFunc = Some f \<and>
           (\<forall>a\<in>set xs. is_element h a \<longrightarrow> f (Some a) = Inr (g (Some a)))"
    and ch: "chain (prev_of h) (prev_of h n) xs"
  shows "getChildrenWithSiblingType h parent st (Some n) untilFunc =
      Some (Inr (map Some (collect st g (filter (is_element h) xs))))"
proof -
  have sw: "\<And>c. iter_switch h parent st (Some n) (Some c) = Inr (prev_of h c)"
    using st by (auto simp: iter_switch_def prev_of_def siblingType_defs)
  have start: "iter_switch h parent st (Some n) None = Inr (prev_of h n)"
    using st by (auto simp: iter_switch_def prev_of_def siblingType_defs)
  have k: "kept h st = is_element h"
    using st by (intro kept_element) (auto simp: siblingType_defs)
  have uf': "st = siblingNextUntil \<or> st = siblingPrevUntil \<Longrightarrow>
       \<exists>f. untilFunc = Some f \<and> (\<forall>a\<in>set xs. kept h st a \<longrightarrow> f (Some a) = Inr (g (Some a)))"
    using st uf unfolding k by (auto simp: siblingType_defs)
  show ?thesis using walk_collect [OF sw uf' start ch] by (simp add: k)
qed

lemma walk_children:
  assumes st: "st = siblingAll \<or> st = siblingAllIncludingNonElements"
    and ch: "chain (next_of h) (FirstChild (h p)) cs"
  shows "getChildrenWithSiblingType h (Some p) st skipNode untilFunc =
      Some (Inr (map Some (filter (kept h st)
        (case skipNode of None \<Rightarrow> cs | Some s \<Rightarrow> removeAll s cs))))"
proof -
  have sw: "\<And>c. iter_switch h (Some p) st skipNode (Some c) = Inr (skip_link h skipNode c)"
    using st
    by (auto simp: iter_switch_def skip_link_def next_of_def Let_def split: option.splits)
  have uf: "\<And>xs. st = siblingNextUntil \<or> st = siblingPrevUntil \<Longrightarrow>
       \<exists>f. untilFunc = Some f \<and>
           (\<forall>a\<in>set xs. kept h st a \<longrightarrow> f (Some a) = Inr ((\<lambda>_. False) (Some a)))"
    using st by (auto simp: siblingType_defs)
  have ca: "\<And>xs. collect st (\<lambda>_. False) xs = xs"
    using st by (intro collect_all) (auto simp: siblingType_defs)
  show ?thesis
  proof (cases skipNode)
    case None
    have start: "iter_switch h (Some p) st skipNode None = Inr (FirstChild (h p))"
      using st None by (auto simp: iter_switch_def)
    have "chain (skip_link h skipNode) (FirstChild (h p)) cs"
      using ch None by (simp add: chain_skip_None)
    from walk_collect [OF sw uf start this] show ?thesis using None by (simp add: ca)
  next
    case (Some s)
    have start: "iter_switch h (Some p) st skipNode None =
        Inr (if FirstChild (h p) = Some s then next_of h s else FirstChild (h p))"
      using st Some by (auto simp: iter_switch_def next_of_def)
    have "chain (skip_link h skipNode)
            (if FirstChild (h p) = Some s then next_of h s else FirstChild (h p))
            (removeAll s cs)"
      using chain_skip [OF ch, of s] Some by simp
    from walk_collect [OF sw uf start this] show ?thesis using Some by (simp add: ca)
  qed
qed

section \<open>The merge of mapNodes\<close>

lemma set_keep_first: "set (keep_first xs) = set xs"
  by (induction xs rule: keep_first.induct) auto

lemma distinct_keep_first: "distinct (keep_first xs)"
  by (induction xs rule: keep_first.induct) (auto simp: set_keep_first)

lemma keep_first_distinct: "distinct xs \<Longrightarrow> keep_first xs = xs"
  by (induction xs) auto

lemma appendWithoutDuplicates_keep_first:
  "appendWithoutDuplicates target vals =
     target @ keep_first (filter (\<lambda>v. v \<notin> set target) vals)"
proof (induction vals arbitrary: target)
  case Nil
  then show ?case by simp
next
  case (Cons v vals)
  show ?case
  proof (cases "v \<in> set target")
    case True
    then show ?thesis using Cons [of target] by (simp add: isInSlice_def)
  next
    case False
    have "removeAll v (filter (\<lambda>w. w \<notin> set target) vals) =
          filter (\<lambda>w. w \<notin> set (target @ [v])) vals"
      by (induction vals) auto
    then show ?thesis using False Cons [of "target @ [v]"] by (simp add: isInSlice_def)
  qed
qed

lemma appendWithoutDuplicates_append:
  "appendWithoutDuplicates target (xs @ ys) =
     appendWithoutDuplicates (appendWithoutDuplicates target xs) ys"
  by (induction xs arbitrary: target) simp_all

lemma mapNodes_loop_returns:
  "(\<And>k. k < length nodes \<Longrightarrow> f (i + k) (nodes ! k) = Some (Inr (g (i + k) (nodes ! k)))) \<Longrightarrow>
     mapNodes_loop i nodes f result =
       Some (Inr (appendWithoutDuplicates result
                    (concat (map (\<lambda>(k, n). g k n) (enumerate i nodes)))))"
proof (induction nodes arbitrary: i result)
  case Nil
  then show ?case by simp
next
  case (Cons n nodes)
  have hd: "f i n = Some (Inr (g i n))" using Cons.prems [of 0] by simp
  have tl: "\<And>k. k < length nodes \<Longrightarrow>
      f (Suc i + k) (nodes ! k) = Some (Inr (g (Suc i + k) (nodes ! k)))"
    using Cons.prems [of "Suc _"] by simp
  have e: "(if length (g i n) > 0 then appendWithoutDuplicates result (g i n) else result) =
      appendWithoutDuplicates result (g i n)"
    by (cases "g i n") simp_all
  show ?case
    using Cons.IH [OF tl] by (simp add: hd e appendWithoutDuplicates_append)
qed

lemma mapNodes_returns:
  assumes "\<And>k. k < length nodes \<Longrightarrow> f k (nodes ! k) = Some (Inr (g k (nodes ! k)))"
  shows "mapNodes nodes f =
       Some (Inr (keep_first (concat (map (\<lambda>(k, n). g k n) (enumerate 0 nodes)))))"
  unfolding mapNodes_def
  using mapNodes_loop_returns [of nodes f 0 g "[]"] assms
  by (simp add: appendWithoutDuplicates_keep_first)

lemma mapNodes_single:
  "f 0 n = Some (Inr vals) \<Longrightarrow> distinct vals \<Longrightarrow> mapNodes [n] f = Some (Inr vals)"
  using mapNodes_returns [of "[n]" f "\<lambda>_ _. vals"]
  by (simp add: keep_first_distinct)

lemma distinct_map_Some: "distinct xs \<Longrightarrow> distinct (map Some xs)"
  by (simp add: distinct_map)

section \<open>Directional walks and the until test\<close>

lemma prev_links_chain:
  "prev_links h q (pre @ x # post) \<Longrightarrow> chain (prev_of h) q qs \<Longrightarrow>
     chain (prev_of h) (prev_of h x) (rev pre @ qs)"
proof (induction pre arbitrary: q qs)
  case Nil
  then show ?case by (simp add: prev_of_def)
next
  case (Cons a pre)
  have l: "prev_links h (Some a) (pre @ x # post)" using Cons.prems(1) by simp
  have "prev_of h a = q" using Cons.prems(1) by (simp add: prev_of_def)
  then have c: "chain (prev_of h) (Some a) (a # qs)" using Cons.prems(2) by simp
  show ?case using Cons.IH [OF l c] by simp
qed

lemma set_collect: "set (collect st g xs) \<subseteq> set xs"
  by (induction xs) auto

lemma distinct_collect: "distinct xs \<Longrightarrow> distinct (collect st g xs)"
proof (induction xs)
  case Nil
  then show ?case by simp
next
  case (Cons x xs)
  then show ?case using set_collect [of st g xs] by auto
qed

lemma walk_link_forward:
  "st = siblingNext \<or> st = siblingNextAll \<or> st = siblingNextUntil \<Longrightarrow>
     walk_link h st = next_of h"
  by (rule ext) (auto simp: walk_link_def next_of_def siblingType_defs)

lemma walk_link_backward:
  "st = siblingPrev \<or> st = siblingPrevAll \<or> st = siblingPrevUntil \<Longrightarrow>
     walk_link h st = prev_of h"
  by (rule ext) (auto simp: walk_link_def prev_of_def siblingType_defs)

text \<open>A directional walk, in terms of the link it follows.\<close>

lemma walk_directional:
  assumes st: "st = siblingPrev \<or> st = siblingPrevAll \<or> st = siblingPrevUntil \<or>
               st = siblingNext \<or> st = siblingNextAll \<or> st = siblingNextUntil"
    and uf: "st = siblingNextUntil \<or> st = siblingPrevUntil \<Longrightarrow>
       \<exists>f. untilFunc = Some f \<and>
           (\<forall>a\<in>set xs. is_element h a \<longrightarrow> f (Some a) = Inr (g (Some a)))"
    and ch: "chain (walk_link h st) (walk_link h st n) xs"
  shows "getChildrenWithSiblingType h parent st (Some n) untilFunc =
      Some (Inr (map Some (collect st g (filter (is_element h) xs))))"
proof (cases "st = siblingNext \<or> st = siblingNextAll \<or> st = siblingNextUntil")
  case True
  then have "chain (next_of h) (next_of h n) xs" using ch by (simp add: walk_link_forward)
  then show ?thesis using True uf by (intro walk_forward) auto
next
  case False
  then have b: "st = siblingPrev \<or> st = siblingPrevAll \<or> st = siblingPrevUntil"
    using st by auto
  then have "chain (prev_of h) (prev_of h n) xs" using ch by (simp add: walk_link_backward)
  then show ?thesis using b uf by (intro walk_backward) auto
qed


lemma getSiblingNodes_single:
  assumes "getChildrenWithSiblingType h (Parent (h n)) st (Some n)
             (if st = siblingNextUntil \<or> st = siblingPrevUntil
              then Some (getSiblingNodes_until cas untilSelector untilNodes) else None) =
           Some (Inr (map Some ys))"
    and "distinct ys"
  shows "getSiblingNodes cas h [Some n] st untilSelector untilNodes = Some (Inr (map Some ys))"
  unfolding getSiblingNodes_def Let_def
  using assms
    mapNodes_single [of "\<lambda>i n. case n of None \<Rightarrow> Some (Inl NilDereference)
       | Some a \<Rightarrow> getChildrenWithSiblingType h (Parent (h a)) st n
           (if st = siblingNextUntil \<or> st = siblingPrevUntil
            then Some (getSiblingNodes_until cas untilSelector untilNodes) else None)"
       "Some n" "map Some ys"]
  by (simp add: distinct_map_Some)

lemma getSiblingNodes_until_compiled:
  assumes "untilSelector = [] \<or> cas untilSelector = Some sel"
  shows "getSiblingNodes_until cas untilSelector untilNodes c =
           Inr (if untilSelector \<noteq> [] then Match sel c else c \<in> set untilNodes)"
  using assms
  by (auto simp: getSiblingNodes_until_def Is_def MustCompile_def IsNodes_def isInSlice_def)

lemma pivot_walk:
  assumes st: "st \<in> {siblingPrevUntil, siblingPrevAll, siblingPrev, siblingAll, siblingNext,
                     siblingNextAll, siblingNextUntil, siblingAllIncludingNonElements}"
    and par: "Parent (h n) = Some p"
    and cs: "chain (next_of h) (FirstChild (h p)) cs"
    and ns: "chain (next_of h) (NextSibling (h n)) ns"
    and ps: "chain (prev_of h) (PrevSibling (h n)) ps"
    and comp: "untilSelector = [] \<or> cas untilSelector = Some sel"
  shows "\<exists>ys. getChildrenWithSiblingType h (Parent (h n)) st (Some n)
                 (if st = siblingNextUntil \<or> st = siblingPrevUntil
                  then Some (getSiblingNodes_until cas untilSelector untilNodes) else None) =
                 Some (Inr (map Some ys)) \<and> distinct ys \<and> n \<notin> set ys"
proof -
  let ?f = "getSiblingNodes_until cas untilSelector untilNodes"
  let ?uf = "if st = siblingNextUntil \<or> st = siblingPrevUntil then Some ?f else None"
  define g where "g = (\<lambda>c. if untilSelector \<noteq> [] then Match sel c else c \<in> set untilNodes)"
  have tot: "\<And>c. ?f c = Inr (g c)"
    unfolding g_def
    using comp by (intro getSiblingNodes_until_compiled [of untilSelector cas sel])
  consider (children) "st = siblingAll \<or> st = siblingAllIncludingNonElements"
    | (forward) "st = siblingNext \<or> st = siblingNextAll \<or> st = siblingNextUntil"
    | (backward) "st = siblingPrev \<or> st = siblingPrevAll \<or> st = siblingPrevUntil"
    using st by auto
  then show ?thesis
  proof cases
    case children
    have "getChildrenWithSiblingType h (Some p) st (Some n) ?uf =
        Some (Inr (map Some (filter (kept h st) (removeAll n cs))))"
      using walk_children [OF children cs, of "Some n" ?uf] by simp
    moreover have "distinct (filter (kept h st) (removeAll n cs))"
      using chain_distinct [OF cs] by (simp add: distinct_removeAll)
    ultimately show ?thesis using par by auto
  next
    case forward
    have c: "chain (next_of h) (next_of h n) ns" using ns by (simp add: next_of_def)
    have "getChildrenWithSiblingType h (Parent (h n)) st (Some n) ?uf =
        Some (Inr (map Some (collect st g (filter (is_element h) ns))))"
      using forward tot by (intro walk_forward [OF _ _ c]) auto
    moreover have "distinct (collect st g (filter (is_element h) ns))"
      using chain_distinct [OF c] by (simp add: distinct_collect)
    moreover have "n \<notin> set (collect st g (filter (is_element h) ns))"
      using chain_self_notin [OF c] set_collect [of st g "filter (is_element h) ns"]
      by auto
    ultimately show ?thesis by blast
  next
    case backward
    have c: "chain (prev_of h) (prev_of h n) ps" using ps by (simp add: prev_of_def)
    have "getChildrenWithSiblingType h (Parent (h n)) st (Some n) ?uf =
        Some (Inr (map Some (collect st g (filter (is_element h) ps))))"
      using backward tot by (intro walk_backward [OF _ _ c]) auto
    moreover have "distinct (collect st g (filter (is_element h) ps))"
      using chain_distinct [OF c] by (simp add: distinct_collect)
    moreover have "n \<notin> set (collect st g (filter (is_element h) ps))"
      using chain_self_notin [OF c] set_collect [of st g "filter (is_element h) ps"]
      by auto
    ultimately show ?thesis by blast
  qed
qed

lemma pivot_getSiblingNodes:
  assumes st: "st \<in> {siblingPrevUntil, siblingPrevAll, siblingPrev, siblingAll, siblingNext,
                     siblingNextAll, siblingNextUntil, siblingAllIncludingNonElements}"
    and par: "Parent (h n) = Some p"
    and cs: "chain (next_of h) (FirstChild (h p)) cs"
    and ns: "chain (next_of h) (NextSibling (h n)) ns"
    and ps: "chain (prev_of h) (PrevSibling (h n)) ps"
    and comp: "untilSelector = [] \<or> cas untilSelector = Some sel"
  shows "\<exists>r. getSiblingNodes cas h [Some n] st untilSelector untilNodes = Some (Inr r) \<and>
              Some n \<notin> set r"
proof -
  from pivot_walk [where h = h and n = n and cas = cas and untilNodes = untilNodes,
      OF st par cs ns ps comp] obtain ys where
    w: "getChildrenWithSiblingType h (Parent (h n)) st (Some n)
          (if st = siblingNextUntil \<or> st = siblingPrevUntil
           then Some (getSiblingNodes_until cas untilSelector untilNodes) else None) =
          Some (Inr (map Some ys))" and d: "distinct ys" and n: "n \<notin> set ys"
    by blast
  have "getSiblingNodes cas h [Some n] st untilSelector untilNodes = Some (Inr (map Some ys))"
    by (rule getSiblingNodes_single [OF w d])
  then show ?thesis using n by auto
qed

section \<open>Ancestors and descendants\<close>



lemma find_loop_concat:
  "chain (next_of h) c cs \<Longrightarrow>
     find_loop h sel c result =
       Some (Inr (result @
         concat (map (\<lambda>c. MatchAll sel (Some c)) (filter (is_element h) cs))))"
proof (induction cs arbitrary: c result)
  case Nil
  then show ?case by (subst find_loop.simps) simp
next
  case (Cons a cs)
  have c: "c = Some a" and tl0: "chain (next_of h) (next_of h a) cs"
    using Cons.prems by simp_all
  have na: "next_of h a = NextSibling (h a)" by (simp add: next_of_def)
  have tl: "chain (next_of h) (NextSibling (h a)) cs" using tl0 unfolding na .
  have ie: "(Type (h a) = ElementNode) = is_element h a" by (simp add: is_element_def)
  show ?case
    by (subst find_loop.simps) (simp add: c Cons.IH [OF tl] ie)
qed

lemma strict_desc_up:
  "strict_desc h x c \<Longrightarrow> Parent (h c) = Some n \<Longrightarrow> strict_desc h x n"
proof (induction rule: strict_desc.induct)
  case (child x c)
  then show ?case by (blast intro: strict_desc.intros)
next
  case (below x p c)
  then show ?case by (blast intro: strict_desc.intros)
qed

lemma strict_desc_in_chain:
  "strict_desc h x n \<Longrightarrow> chain (parent_of h) (parent_of h x) as \<Longrightarrow> n \<in> set as"
proof (induction arbitrary: as rule: strict_desc.induct)
  case (child x n)
  have "parent_of h x = Some n" using child.hyps by (simp add: parent_of_def)
  then show ?case using child.prems by (cases as) auto
next
  case (below x p n)
  have px: "parent_of h x = Some p" using below.hyps(1) by (simp add: parent_of_def)
  then obtain as' where as: "as = p # as'" and tl: "chain (parent_of h) (parent_of h p) as'"
    using below.prems by (cases as) auto
  from below.IH [OF tl] as show ?case by simp
qed

lemma not_own_strict_desc:
  "chain (parent_of h) (parent_of h n) as \<Longrightarrow> \<not> strict_desc h n n"
  using strict_desc_in_chain [of h n n as] chain_self_notin [of "parent_of h" n as] by blast

lemma map_enumerate_snd: "map (\<lambda>(k, q). G q) (enumerate i xs) = map G xs"
  by (induction xs arbitrary: i) simp_all

section \<open>The example document, evaluated\<close>

lemma doc_simps:
  "doc 0 = mk_node None (Some 1) None None DocumentNode"
  "doc 1 = mk_node (Some 0) (Some 2) None None ElementNode"
  "doc (Suc 0) = mk_node (Some 0) (Some 2) None None ElementNode"
  "doc 2 = mk_node (Some 1) None None (Some 3) CommentNode"
  "doc 3 = mk_node (Some 1) (Some 7) (Some 2) (Some 4) ElementNode"
  "doc 4 = mk_node (Some 1) None (Some 3) (Some 5) TextNode"
  "doc 5 = mk_node (Some 1) None (Some 4) (Some 6) ElementNode"
  "doc 6 = mk_node (Some 1) None (Some 5) None ElementNode"
  "doc 7 = mk_node (Some 3) (Some 8) None None ElementNode"
  "doc 8 = mk_node (Some 7) None None None ElementNode"
  by (simp_all add: doc_def)

lemmas doc_eval = doc_simps mk_node_def next_of_def prev_of_def parent_of_def is_element_def

lemmas walk_eval = walk_link_def siblingType_defs getSiblingNodes_until_def IsNodes_def
  isInSlice_def

lemmas find_eval = sel_p_i_div_def matcher_def

section \<open>Properties\<close>

text \<open>
  C1 (dedup invariant of the node-set mapper). Whenever every call of the expansion
  function returns, \<^verbatim>\<open>mapNodes\<close> returns the concatenation of the per-source results,
  taken in source order, in which every node reference is kept at its first occurrence
  and dropped at every later one; no node reference occurs twice in it.
\<close>

theorem mapNodes_merge_keeps_first_occurrences:
  assumes "\<forall>i<length nodes. f i (nodes ! i) = Some (Inr (expand i (nodes ! i)))"
  shows "mapNodes nodes f =
     Some (Inr (keep_first (concat (map (\<lambda>(i, n). expand i n) (enumerate 0 nodes))))) \<and>
   distinct (keep_first (concat (map (\<lambda>(i, n). expand i n) (enumerate 0 nodes))))"
  using mapNodes_returns [of nodes f expand] assms
  by (simp add: distinct_keep_first)

text \<open>The merge of \<open>[5, 6, 5]\<close> and \<open>[6, 5, 7]\<close> is \<open>[5, 6, 7]\<close>.\<close>

theorem mapNodes_merge_keeps_first_occurrences_witness:
  "mapNodes [Some 3, Some 5]
     (\<lambda>i n. Some (Inr (if i = 0 then [Some 5, Some 6, Some 5] else [Some 6, n, Some 7]))) =
     Some (Inr [Some 5, Some 6, Some 7]) \<and>
   distinct [Some 5, Some 6, Some (7::nat)]"
  using mapNodes_merge_keeps_first_occurrences
    [of "[Some 3, Some 5]"
        "\<lambda>i n. Some (Inr (if i = 0 then [Some 5, Some 6, Some 5] else [Some 6, n, Some 7]))"
        "\<lambda>i n. if i = 0 then [Some 5, Some 6, Some 5] else [Some 6, n, Some 7]"]
  by simp




text \<open>
  C3 (the pivot is skipped). Let \<open>n\<close> have the parent \<open>p\<close>, let \<open>cs\<close> be the children of
  \<open>p\<close>, \<open>ns\<close> the siblings after \<open>n\<close> and \<open>ps\<close> those before it, and let the until
  selector, if there is one, compile. Then for each of the eight sibling types the
  walk anchored at \<open>n\<close> returns, and \<open>n\<close> is not in the result produced for \<open>n\<close>; in
  particular \<^verbatim>\<open>Siblings\<close> on the selection of \<open>n\<close> alone does not contain \<open>n\<close>.
\<close>

theorem pivot_not_among_its_siblings:
  assumes st: "st \<in> {siblingPrevUntil, siblingPrevAll, siblingPrev, siblingAll, siblingNext,
                     siblingNextAll, siblingNextUntil, siblingAllIncludingNonElements}"
    and par: "Parent (h n) = Some p"
    and cs: "chain (next_of h) (FirstChild (h p)) cs"
    and ns: "chain (next_of h) (NextSibling (h n)) ns"
    and ps: "chain (prev_of h) (PrevSibling (h n)) ps"
    and comp: "untilSelector = [] \<or> cas untilSelector = Some sel"
  shows "(\<exists>r. getSiblingNodes cas h [Some n] st untilSelector untilNodes = Some (Inr r) \<and>
              Some n \<notin> set r) \<and>
         (\<exists>s'. Siblings cas h (Selection [Some n] d pv) = Some (Inr s') \<and>
              Some n \<notin> set (Nodes s'))"
proof -
  have 1: "\<exists>r. getSiblingNodes cas h [Some n] st untilSelector untilNodes = Some (Inr r) \<and>
              Some n \<notin> set r"
    by (rule pivot_getSiblingNodes [where h = h and n = n and cas = cas,
          OF st par cs ns ps comp])
  have "\<exists>r. getSiblingNodes cas h [Some n] siblingAll [] [] = Some (Inr r) \<and> Some n \<notin> set r"
    by (rule pivot_getSiblingNodes [where h = h and n = n and cas = cas
          and untilSelector = "[]", OF _ par cs ns ps]) simp_all
  then have 2: "\<exists>s'. Siblings cas h (Selection [Some n] d pv) = Some (Inr s') \<and>
              Some n \<notin> set (Nodes s')"
    by (auto simp: Siblings_def pushStack_of_def pushStack_def)
  from 1 2 show ?thesis by blast
qed

text \<open>The span 5 of the example is not among its own siblings.\<close>

theorem pivot_not_among_its_siblings_witness:
  "Parent (doc 5) = Some 1 \<and>
   chain (next_of doc) (FirstChild (doc 1)) [2, 3, 4, 5, 6] \<and>
   chain (next_of doc) (NextSibling (doc 5)) [6] \<and>
   chain (prev_of doc) (PrevSibling (doc 5)) [4, 3, 2] \<and>
   getSiblingNodes matcher doc [Some 5] siblingAll [] [] = Some (Inr [Some 3, Some 6]) \<and>
   (\<exists>r. getSiblingNodes matcher doc [Some 5] siblingAll [] [] = Some (Inr r) \<and>
        Some 5 \<notin> set r) \<and>
   (\<exists>s'. Siblings matcher doc (Selection [Some 5] None None) = Some (Inr s') \<and>
        Some 5 \<notin> set (Nodes s'))"
proof -
  have p: "Parent (doc 5) = Some 1" by (simp add: doc_eval)
  have c: "chain (next_of doc) (FirstChild (doc 1)) [2, 3, 4, 5, 6]" by (simp add: doc_eval)
  have n: "chain (next_of doc) (NextSibling (doc 5)) [6]" by (simp add: doc_eval)
  have b: "chain (prev_of doc) (PrevSibling (doc 5)) [4, 3, 2]" by (simp add: doc_eval)
  have u: "([]::string) = [] \<or> matcher [] = Some sel_p_i_div" by simp
  have "getChildrenWithSiblingType doc (Some 1) siblingAll (Some 5) None =
      Some (Inr (map Some (filter (kept doc siblingAll)
        (case Some 5 of None \<Rightarrow> [2, 3, 4, 5, 6] | Some s \<Rightarrow> removeAll s [2, 3, 4, 5, 6]))))"
    by (rule walk_children [OF _ c]) simp
  then have w: "getChildrenWithSiblingType doc (Parent (doc 5)) siblingAll (Some 5)
      (if siblingAll = siblingNextUntil \<or> siblingAll = siblingPrevUntil
       then Some (getSiblingNodes_until matcher [] []) else None) = Some (Inr (map Some [3, 6]))"
    by (simp add: doc_eval kept_def siblingType_defs)
  have v: "getSiblingNodes matcher doc [Some 5] siblingAll [] [] = Some (Inr (map Some [3, 6]))"
    by (rule getSiblingNodes_single [OF w]) simp
  from pivot_not_among_its_siblings [where h = doc and n = 5 and cas = matcher
      and st = siblingAll and d = None and pv = None and untilNodes = "[]", OF _ p c n b u]
    p c n b v
  show ?thesis by simp
qed

text \<open>
  C4 (single cardinality). For a source node \<open>n\<close> whose following siblings are \<open>ns\<close>
  and whose preceding siblings, nearest first, are \<open>ps\<close>: the walk of type
  \<^verbatim>\<open>siblingNextAll\<close> returns the elements among \<open>ns\<close>, and the walk of type
  \<^verbatim>\<open>siblingNext\<close> returns the first node of that list, or nothing when that list is
  empty; likewise for \<^verbatim>\<open>siblingPrevAll\<close> and \<^verbatim>\<open>siblingPrev\<close> on \<open>ps\<close>.
\<close>

theorem single_is_first_of_all:
  assumes "chain (next_of h) (NextSibling (h n)) ns"
    and "chain (prev_of h) (PrevSibling (h n)) ps"
  shows "getChildrenWithSiblingType h parent siblingNextAll (Some n) untilFunc =
           Some (Inr (map Some (filter (is_element h) ns))) \<and>
         getChildrenWithSiblingType h parent siblingNext (Some n) untilFunc =
           Some (Inr (take 1 (map Some (filter (is_element h) ns)))) \<and>
         getChildrenWithSiblingType h parent siblingPrevAll (Some n) untilFunc =
           Some (Inr (map Some (filter (is_element h) ps))) \<and>
         getChildrenWithSiblingType h parent siblingPrev (Some n) untilFunc =
           Some (Inr (take 1 (map Some (filter (is_element h) ps))))"
proof -
  have n: "chain (next_of h) (next_of h n) ns" using assms(1) by (simp add: next_of_def)
  have p: "chain (prev_of h) (prev_of h n) ps" using assms(2) by (simp add: prev_of_def)
  have 1: "getChildrenWithSiblingType h parent siblingNextAll (Some n) untilFunc =
           Some (Inr (map Some (filter (is_element h) ns)))"
    using walk_forward [OF _ _ n, of siblingNextAll untilFunc "\<lambda>_. False" parent]
    by (simp add: collect_all siblingType_defs)
  have 2: "getChildrenWithSiblingType h parent siblingNext (Some n) untilFunc =
           Some (Inr (take 1 (map Some (filter (is_element h) ns))))"
    using walk_forward [OF _ _ n, of siblingNext untilFunc "\<lambda>_. False" parent]
    by (simp add: collect_single siblingType_defs take_map)
  have 3: "getChildrenWithSiblingType h parent siblingPrevAll (Some n) untilFunc =
           Some (Inr (map Some (filter (is_element h) ps)))"
    using walk_backward [OF _ _ p, of siblingPrevAll untilFunc "\<lambda>_. False" parent]
    by (simp add: collect_all siblingType_defs)
  have 4: "getChildrenWithSiblingType h parent siblingPrev (Some n) untilFunc =
           Some (Inr (take 1 (map Some (filter (is_element h) ps))))"
    using walk_backward [OF _ _ p, of siblingPrev untilFunc "\<lambda>_. False" parent]
    by (simp add: collect_single siblingType_defs take_map)
  from 1 2 3 4 show ?thesis by simp
qed

text \<open>The text node 4 of the example: its next element is 5, its previous one is 3.\<close>

theorem single_is_first_of_all_witness:
  "chain (next_of doc) (NextSibling (doc 4)) [5, 6] \<and>
   chain (prev_of doc) (PrevSibling (doc 4)) [3, 2] \<and>
   getChildrenWithSiblingType doc (Parent (doc 4)) siblingNextAll (Some 4) None =
     Some (Inr [Some 5, Some 6]) \<and>
   getChildrenWithSiblingType doc (Parent (doc 4)) siblingNext (Some 4) None =
     Some (Inr [Some 5]) \<and>
   getChildrenWithSiblingType doc (Parent (doc 4)) siblingPrevAll (Some 4) None =
     Some (Inr [Some 3]) \<and>
   getChildrenWithSiblingType doc (Parent (doc 4)) siblingPrev (Some 4) None =
     Some (Inr [Some 3])"
proof -
  have n: "chain (next_of doc) (NextSibling (doc 4)) [5, 6]" by (simp add: doc_eval)
  have p: "chain (prev_of doc) (PrevSibling (doc 4)) [3, 2]" by (simp add: doc_eval)
  show ?thesis
    using n p single_is_first_of_all [OF n p, of "Parent (doc 4)" None]
    by (simp add: doc_eval)
qed

text \<open>
  C5 (kind filter). For a parent \<open>p\<close> whose children are \<open>cs\<close>, in sibling order:
  the children walk of type \<^verbatim>\<open>siblingAllIncludingNonElements\<close> returns all of \<open>cs\<close> in
  this order, and the one of type \<^verbatim>\<open>siblingAll\<close> returns exactly the elements among
  \<open>cs\<close>, in the same order; so does \<^verbatim>\<open>getChildrenNodes\<close> for the single parent \<open>p\<close>.
\<close>

theorem children_kind_filter:
  assumes "chain (next_of h) (FirstChild (h p)) cs"
  shows "getChildrenWithSiblingType h (Some p) siblingAllIncludingNonElements None None =
           Some (Inr (map Some cs)) \<and>
         getChildrenWithSiblingType h (Some p) siblingAll None None =
           Some (Inr (map Some (filter (is_element h) cs))) \<and>
         getChildrenNodes h [Some p] siblingAllIncludingNonElements = Some (Inr (map Some cs)) \<and>
         getChildrenNodes h [Some p] siblingAll =
           Some (Inr (map Some (filter (is_element h) cs)))"
proof -
  have d: "distinct cs" using assms by (rule chain_distinct)
  have a: "getChildrenWithSiblingType h (Some p) siblingAllIncludingNonElements None None =
      Some (Inr (map Some cs))"
    using walk_children [OF _ assms, of siblingAllIncludingNonElements None None]
    by (simp add: kept_any)
  have b: "getChildrenWithSiblingType h (Some p) siblingAll None None =
      Some (Inr (map Some (filter (is_element h) cs)))"
    using walk_children [OF _ assms, of siblingAll None None]
    by (simp add: kept_element siblingType_defs)
  show ?thesis unfolding getChildrenNodes_def
    using d a b
      mapNodes_single [of "\<lambda>i n. getChildrenWithSiblingType h n
        siblingAllIncludingNonElements None None" "Some p" "map Some cs"]
      mapNodes_single [of "\<lambda>i n. getChildrenWithSiblingType h n siblingAll None None"
        "Some p" "map Some (filter (is_element h) cs)"]
    by (simp add: distinct_map_Some)
qed

text \<open>The div of the example has a comment, a text and three element children.\<close>

theorem children_kind_filter_witness:
  "chain (next_of doc) (FirstChild (doc 1)) [2, 3, 4, 5, 6] \<and>
   getChildrenWithSiblingType doc (Some 1) siblingAllIncludingNonElements None None =
     Some (Inr [Some 2, Some 3, Some 4, Some 5, Some 6]) \<and>
   getChildrenWithSiblingType doc (Some 1) siblingAll None None =
     Some (Inr [Some 3, Some 5, Some 6]) \<and>
   getChildrenNodes doc [Some 1] siblingAllIncludingNonElements =
     Some (Inr [Some 2, Some 3, Some 4, Some 5, Some 6]) \<and>
   getChildrenNodes doc [Some 1] siblingAll = Some (Inr [Some 3, Some 5, Some 6])"
proof -
  have c: "chain (next_of doc) (FirstChild (doc 1)) [2, 3, 4, 5, 6]"
    by (simp add: doc_eval)
  show ?thesis using c children_kind_filter [OF c] by (simp add: doc_eval)
qed

text \<open>
  C6 (order invariant). Let \<open>self\<close> be an element with parent \<open>p\<close>, one of the children
  \<open>cs\<close> of \<open>p\<close>, whose \<^verbatim>\<open>PrevSibling\<close> links mirror their \<^verbatim>\<open>NextSibling\<close> links. Then
  the \<^verbatim>\<open>siblingPrevAll\<close> result of \<open>self\<close> reversed, followed by \<open>self\<close>, followed by its
  \<^verbatim>\<open>siblingNextAll\<close> result, is the list of the element children of \<open>p\<close> that the
  \<^verbatim>\<open>siblingAll\<close> children walk returns.
\<close>

theorem siblings_reconstruct_children:
  assumes par: "Parent (h self) = Some p"
    and el: "is_element h self"
    and cs: "chain (next_of h) (FirstChild (h p)) cs"
    and pl: "prev_links h None cs"
    and mem: "self \<in> set cs"
  shows "\<exists>ps ns.
           getChildrenWithSiblingType h (Parent (h self)) siblingPrevAll (Some self) None =
             Some (Inr ps) \<and>
           getChildrenWithSiblingType h (Parent (h self)) siblingNextAll (Some self) None =
             Some (Inr ns) \<and>
           getChildrenWithSiblingType h (Some p) siblingAll None None =
             Some (Inr (rev ps @ [Some self] @ ns))"
proof -
  from mem obtain pre post where split: "cs = pre @ self # post"
    by (auto dest: split_list)
  have n: "chain (next_of h) (next_of h self) post"
    using cs split by (auto dest: chain_suffix)
  have b: "chain (prev_of h) (prev_of h self) (rev pre)"
    using prev_links_chain [of h None pre self post "[]"] pl split by simp
  have 1: "getChildrenWithSiblingType h (Parent (h self)) siblingPrevAll (Some self) None =
      Some (Inr (map Some (filter (is_element h) (rev pre))))"
    using walk_backward [OF _ _ b, of siblingPrevAll None "\<lambda>_. False" "Parent (h self)"]
    by (simp add: collect_all siblingType_defs)
  have 2: "getChildrenWithSiblingType h (Parent (h self)) siblingNextAll (Some self) None =
      Some (Inr (map Some (filter (is_element h) post)))"
    using walk_forward [OF _ _ n, of siblingNextAll None "\<lambda>_. False" "Parent (h self)"]
    by (simp add: collect_all siblingType_defs)
  have 3: "getChildrenWithSiblingType h (Some p) siblingAll None None =
      Some (Inr (map Some (filter (is_element h) cs)))"
    using walk_children [OF _ cs, of siblingAll None None]
    by (simp add: kept_element siblingType_defs)
  have "rev (map Some (filter (is_element h) (rev pre))) @ [Some self] @
          map Some (filter (is_element h) post) =
        map Some (filter (is_element h) cs)"
    using el split by (simp add: rev_map rev_filter)
  with 1 2 3 show ?thesis by metis
qed

text \<open>Around the span 5 of the example: the children 3, 5 and 6 of the div.\<close>

theorem siblings_reconstruct_children_witness:
  "Parent (doc 5) = Some 1 \<and> is_element doc 5 \<and>
   chain (next_of doc) (FirstChild (doc 1)) [2, 3, 4, 5, 6] \<and>
   prev_links doc None [2, 3, 4, 5, 6] \<and>
   getChildrenWithSiblingType doc (Parent (doc 5)) siblingPrevAll (Some 5) None =
     Some (Inr [Some 3]) \<and>
   getChildrenWithSiblingType doc (Parent (doc 5)) siblingNextAll (Some 5) None =
     Some (Inr [Some 6]) \<and>
   getChildrenWithSiblingType doc (Some 1) siblingAll None None =
     Some (Inr (rev [Some 3] @ [Some 5] @ [Some 6]))"
proof -
  have p: "Parent (doc 5) = Some 1" by (simp add: doc_eval)
  have e: "is_element doc 5" by (simp add: doc_eval)
  have c: "chain (next_of doc) (FirstChild (doc 1)) [2, 3, 4, 5, 6]" by (simp add: doc_eval)
  have l: "prev_links doc None [2, 3, 4, 5, 6]" by (simp add: doc_eval)
  have m: "(5::nat) \<in> set [2, 3, 4, 5, 6]" by simp
  have b: "chain (prev_of doc) (prev_of doc 5) [4, 3, 2]" by (simp add: doc_eval)
  have "getChildrenWithSiblingType doc (Parent (doc 5)) siblingPrevAll (Some 5) None =
      Some (Inr (map Some (collect siblingPrevAll (\<lambda>_. False)
        (filter (is_element doc) [4, 3, 2]))))"
    by (rule walk_backward [OF _ _ b]) (simp_all add: siblingType_defs)
  then have pa: "getChildrenWithSiblingType doc (Parent (doc 5)) siblingPrevAll (Some 5) None =
      Some (Inr [Some 3])"
    by (simp add: doc_eval siblingType_defs)
  have f: "chain (next_of doc) (next_of doc 5) [6]" by (simp add: doc_eval)
  have "getChildrenWithSiblingType doc (Parent (doc 5)) siblingNextAll (Some 5) None =
      Some (Inr (map Some (collect siblingNextAll (\<lambda>_. False)
        (filter (is_element doc) [6]))))"
    by (rule walk_forward [OF _ _ f]) (simp_all add: siblingType_defs)
  then have na: "getChildrenWithSiblingType doc (Parent (doc 5)) siblingNextAll (Some 5) None =
      Some (Inr [Some 6])"
    by (simp add: doc_eval siblingType_defs)
  from siblings_reconstruct_children [where h = doc and self = 5, OF p e c l m] p e c l pa na
  show ?thesis by auto
qed



text \<open>
  C8 (descendant search). Let the selector compile, let \<open>kids n\<close> be the children of
  each source \<open>n\<close>, which have \<open>n\<close> as their parent, let every source have finitely many
  ancestors, and let \<^verbatim>\<open>MatchAll\<close>, called on an element child \<open>c\<close>, return only \<open>c\<close> and
  strict descendants of \<open>c\<close>. Then the search for one source \<open>n\<close> is the concatenation of
  \<^verbatim>\<open>MatchAll\<close> over the element children of \<open>n\<close>, nothing else, and \<open>n\<close> is not in it;
  \<^verbatim>\<open>findWithSelector\<close> returns the merge of these lists, and every node of it is a
  strict descendant of some source.
\<close>

theorem find_returns_strict_descendants:
  assumes comp: "cas selector = Some sel"
    and kids: "\<forall>n\<in>set srcs. chain (next_of h) (FirstChild (h n)) (kids n)"
    and par: "\<forall>n\<in>set srcs. \<forall>c\<in>set (kids n). Parent (h c) = Some n"
    and sub: "\<forall>n\<in>set srcs. \<forall>c\<in>set (kids n). is_element h c \<longrightarrow>
                (\<forall>r\<in>set (MatchAll sel (Some c)).
                   \<exists>x. r = Some x \<and> (x = c \<or> strict_desc h x c))"
    and anc: "\<forall>n\<in>set srcs. chain (parent_of h) (Parent (h n)) (ancs n)"
  shows "(\<forall>n\<in>set srcs.
            findWithSelector_func h sel i (Some n) =
              Some (Inr (concat (map (\<lambda>c. MatchAll sel (Some c))
                                   (filter (is_element h) (kids n))))) \<and>
            Some n \<notin> set (concat (map (\<lambda>c. MatchAll sel (Some c))
                                   (filter (is_element h) (kids n))))) \<and>
         (\<exists>res. findWithSelector cas h (map Some srcs) selector = Some (Inr res) \<and>
            res = keep_first (concat (map
                    (\<lambda>n. concat (map (\<lambda>c. MatchAll sel (Some c))
                                   (filter (is_element h) (kids n)))) srcs)) \<and>
            (\<forall>r\<in>set res. \<exists>x n. r = Some x \<and> n \<in> set srcs \<and> strict_desc h x n))"
proof -
  define E where
    "E = (\<lambda>n. concat (map (\<lambda>c. MatchAll sel (Some c)) (filter (is_element h) (kids n))))"
  have own: "findWithSelector_func h sel j (Some n) = Some (Inr (E n))"
    if "n \<in> set srcs" for n j
    using find_loop_concat [of h "FirstChild (h n)" "kids n" sel "[]"] kids that
    by (simp add: findWithSelector_func_def E_def)
  have desc: "\<exists>x. r = Some x \<and> strict_desc h x n" if n: "n \<in> set srcs" and r: "r \<in> set (E n)"
    for n r
  proof -
    from r obtain c where c: "c \<in> set (kids n)" and e: "is_element h c"
      and m: "r \<in> set (MatchAll sel (Some c))"
      by (auto simp: E_def)
    from sub n c e m obtain x where x: "r = Some x" and d: "x = c \<or> strict_desc h x c"
      by blast
    have pc: "Parent (h c) = Some n" using par n c by blast
    have "strict_desc h x n"
      using d pc by (auto intro: strict_desc.child strict_desc_up)
    with x show ?thesis by blast
  qed
  have self: "Some n \<notin> set (E n)" if n: "n \<in> set srcs" for n
  proof
    assume "Some n \<in> set (E n)"
    from desc [OF n this] have "strict_desc h n n" by simp
    moreover have "chain (parent_of h) (parent_of h n) (ancs n)"
      using anc n by (simp add: parent_of_def)
    ultimately show False using not_own_strict_desc by blast
  qed
  have "mapNodes (map Some srcs) (findWithSelector_func h sel) =
      Some (Inr (keep_first (concat (map (\<lambda>(k, q). case q of None \<Rightarrow> [] | Some n \<Rightarrow> E n)
        (enumerate 0 (map Some srcs))))))"
    by (rule mapNodes_returns) (simp add: own)
  also have "concat (map (\<lambda>(k, q). case q of None \<Rightarrow> [] | Some n \<Rightarrow> E n)
        (enumerate 0 (map Some srcs))) = concat (map E srcs)"
    by (simp add: map_enumerate_snd comp_def)
  finally have res: "findWithSelector cas h (map Some srcs) selector =
      Some (Inr (keep_first (concat (map E srcs))))"
    by (simp add: findWithSelector_def MustCompile_def comp)
  have "\<forall>r\<in>set (keep_first (concat (map E srcs))).
          \<exists>x n. r = Some x \<and> n \<in> set srcs \<and> strict_desc h x n"
    using desc by (simp add: set_keep_first) blast
  with res own self show ?thesis unfolding E_def by blast
qed

text \<open>
  In the example the selector matches the div 1, the p 3 and the i 8. The search from
  the div returns 3 and 8 but not the div; the search from the p returns 8 but not
  the p, which the merged result has as a descendant of the div.
\<close>

theorem find_returns_strict_descendants_witness:
  "matcher ''p, i, div'' = Some sel_p_i_div \<and>
   chain (next_of doc) (FirstChild (doc 1)) [2, 3, 4, 5, 6] \<and>
   chain (next_of doc) (FirstChild (doc 3)) [7] \<and>
   chain (parent_of doc) (Parent (doc 1)) [0] \<and>
   chain (parent_of doc) (Parent (doc 3)) [1, 0] \<and>
   Match sel_p_i_div (Some 1) \<and> Match sel_p_i_div (Some 3) \<and>
   findWithSelector_func doc sel_p_i_div 0 (Some 1) = Some (Inr [Some 3, Some 8]) \<and>
   findWithSelector_func doc sel_p_i_div 1 (Some 3) = Some (Inr [Some 8]) \<and>
   findWithSelector matcher doc [Some 1, Some 3] ''p, i, div'' = Some (Inr [Some 3, Some 8]) \<and>
   strict_desc doc 3 1 \<and> strict_desc doc 8 3"
proof -
  let ?kids = "\<lambda>n::nat. if n = 1 then [2, 3, 4, 5, 6::nat] else [7]"
  let ?ancs = "\<lambda>n::nat. if n = 1 then [0::nat] else [1, 0]"
  have m: "matcher ''p, i, div'' = Some sel_p_i_div" by (simp add: matcher_def)
  have k1: "chain (next_of doc) (FirstChild (doc 1)) [2, 3, 4, 5, 6]" by (simp add: doc_eval)
  have k3: "chain (next_of doc) (FirstChild (doc 3)) [7]" by (simp add: doc_eval)
  have a1: "chain (parent_of doc) (Parent (doc 1)) [0]" by (simp add: doc_eval)
  have a3: "chain (parent_of doc) (Parent (doc 3)) [1, 0]" by (simp add: doc_eval)
  have d31: "strict_desc doc 3 1" by (rule strict_desc.child) (simp add: doc_eval)
  have d87: "strict_desc doc 8 7" by (rule strict_desc.child) (simp add: doc_eval)
  have d73: "strict_desc doc 7 3" by (rule strict_desc.child) (simp add: doc_eval)
  have d83: "strict_desc doc 8 3"
    by (rule strict_desc.below [of doc 8 7]) (simp_all add: doc_eval d73)
  have kids: "\<forall>n\<in>set [1, 3]. chain (next_of doc) (FirstChild (doc n)) (?kids n)"
    using k1 k3 by simp
  have par: "\<forall>n\<in>set [1, 3]. \<forall>c\<in>set (?kids n). Parent (doc c) = Some n"
    by (simp add: doc_eval)
  have sub: "\<forall>n\<in>set [1, 3]. \<forall>c\<in>set (?kids n). is_element doc c \<longrightarrow>
                (\<forall>r\<in>set (MatchAll sel_p_i_div (Some c)).
                   \<exists>x. r = Some x \<and> (x = c \<or> strict_desc doc x c))"
    using d83 d87 by (simp add: doc_eval find_eval)
  have anc: "\<forall>n\<in>set [1, 3]. chain (parent_of doc) (Parent (doc n)) (?ancs n)"
    using a1 a3 by simp
  from find_returns_strict_descendants [where h = doc and cas = matcher and srcs = "[1, 3]"
      and kids = ?kids and ancs = ?ancs, OF m kids par sub anc, of 0]
    find_returns_strict_descendants [where h = doc and cas = matcher and srcs = "[1, 3]"
      and kids = ?kids and ancs = ?ancs, OF m kids par sub anc, of 1]
    m k1 k3 a1 a3 d31 d83
  show ?thesis by (simp add: doc_eval find_eval)
qed

text \<open>
  C9 (the until test only sees elements). In a walk of type \<^verbatim>\<open>siblingNextUntil\<close> or
  \<^verbatim>\<open>siblingPrevUntil\<close> over the siblings \<open>xs\<close>, let the until function return \<open>g a\<close> on
  every element \<open>a\<close> of \<open>xs\<close>; on the other nodes it may return anything or panic. Then
  the walk returns the elements of \<open>xs\<close> up to the first one on which \<open>g\<close> holds; any
  until function that agrees with this one on the elements of \<open>xs\<close> gives the same
  result; and a sibling \<open>t\<close> that is not an element is stepped over whatever the until
  test says on it: the result is that of the walk over \<open>xs\<close> without \<open>t\<close>.
\<close>

theorem until_test_sees_elements_only:
  assumes st: "st = siblingNextUntil \<or> st = siblingPrevUntil"
    and ch: "chain (walk_link h st) (walk_link h st n) xs"
    and fe: "\<forall>a\<in>set xs. is_element h a \<longrightarrow> f (Some a) = Inr (g a)"
  shows "getChildrenWithSiblingType h parent st (Some n) (Some f) =
           Some (Inr (map Some (takeWhile (\<lambda>a. \<not> g a) (filter (is_element h) xs)))) \<and>
         (\<forall>f'. (\<forall>a\<in>set xs. is_element h a \<longrightarrow> f' (Some a) = f (Some a)) \<longrightarrow>
            getChildrenWithSiblingType h parent st (Some n) (Some f') =
            getChildrenWithSiblingType h parent st (Some n) (Some f)) \<and>
         (\<forall>pre t post. xs = pre @ t # post \<and> \<not> is_element h t \<longrightarrow>
            getChildrenWithSiblingType h parent st (Some n) (Some f) =
            Some (Inr (map Some
              (takeWhile (\<lambda>a. \<not> g a) (filter (is_element h) (pre @ post))))))"
proof -
  let ?r = "Some (Inr (map Some (takeWhile (\<lambda>a. \<not> g a) (filter (is_element h) xs))))"
  have w: "getChildrenWithSiblingType h parent st (Some n) (Some f') = ?r"
    if "\<forall>a\<in>set xs. is_element h a \<longrightarrow> f' (Some a) = Inr (g a)" for f'
  proof -
    have "getChildrenWithSiblingType h parent st (Some n) (Some f') =
        Some (Inr (map Some (collect st (\<lambda>c. case c of None \<Rightarrow> False | Some a \<Rightarrow> g a)
          (filter (is_element h) xs))))"
      using st that by (intro walk_directional [OF _ _ ch]) auto
    then show ?thesis using st by (simp add: collect_until)
  qed
  have 1: "getChildrenWithSiblingType h parent st (Some n) (Some f) = ?r"
    using fe by (rule w)
  have 2: "getChildrenWithSiblingType h parent st (Some n) (Some f') =
      getChildrenWithSiblingType h parent st (Some n) (Some f)"
    if "\<forall>a\<in>set xs. is_element h a \<longrightarrow> f' (Some a) = f (Some a)" for f'
    using w [of f'] 1 that fe by simp
  have 3: "getChildrenWithSiblingType h parent st (Some n) (Some f) =
      Some (Inr (map Some (takeWhile (\<lambda>a. \<not> g a) (filter (is_element h) (pre @ post)))))"
    if "xs = pre @ t # post \<and> \<not> is_element h t" for pre t post
    using 1 that by simp
  from 1 2 3 show ?thesis by blast
qed

text \<open>
  From the p of the example, until the nodes 4 and 6: the text node 4 does not end the
  walk, which goes on to the span 5 and ends at the em 6.
\<close>

theorem until_test_sees_elements_only_witness:
  "chain (walk_link doc siblingNextUntil) (walk_link doc siblingNextUntil 3) [4, 5, 6] \<and>
   \<not> is_element doc 4 \<and>
   getSiblingNodes_until matcher [] [Some 4, Some 6] (Some 4) = Inr True \<and>
   getChildrenWithSiblingType doc (Parent (doc 3)) siblingNextUntil (Some 3)
     (Some (getSiblingNodes_until matcher [] [Some 4, Some 6])) = Some (Inr [Some 5]) \<and>
   getChildrenWithSiblingType doc (Parent (doc 3)) siblingNextUntil (Some 3)
     (Some (getSiblingNodes_until matcher [] [Some 6])) = Some (Inr [Some 5])"
proof -
  have c: "chain (walk_link doc siblingNextUntil) (walk_link doc siblingNextUntil 3) [4, 5, 6]"
    by (simp add: doc_eval walk_eval)
  have f: "\<forall>a\<in>set [4, 5, 6]. is_element doc a \<longrightarrow>
      getSiblingNodes_until matcher [] [Some 4, Some 6] (Some a) = Inr (a = 6)"
    by (simp add: doc_eval walk_eval)
  have f': "\<forall>a\<in>set [4, 5, 6]. is_element doc a \<longrightarrow>
      getSiblingNodes_until matcher [] [Some 6] (Some a) =
      getSiblingNodes_until matcher [] [Some 4, Some 6] (Some a)"
    by (simp add: doc_eval walk_eval)
  have "siblingNextUntil = siblingNextUntil \<or> siblingNextUntil = siblingPrevUntil" by simp
  from until_test_sees_elements_only [OF this c f, of "Parent (doc 3)"] f' c
  show ?thesis by (simp add: doc_eval walk_eval)
qed

text \<open>
  C10 (nil Selection arguments). With a nil Selection, \<^verbatim>\<open>NextUntilSelection\<close>,
  \<^verbatim>\<open>PrevUntilSelection\<close> and \<^verbatim>\<open>ParentsUntilSelection\<close> are \<^verbatim>\<open>NextAll\<close>, \<^verbatim>\<open>PrevAll\<close> and
  \<^verbatim>\<open>Parents\<close>, whereas \<^verbatim>\<open>FindSelection\<close> and \<^verbatim>\<open>ClosestSelection\<close> return a selection
  without nodes.
\<close>

theorem nil_selection_asymmetry:
  "NextUntilSelection cas h s None = NextAll cas h s \<and>
   PrevUntilSelection cas h s None = PrevAll cas h s \<and>
   ParentsUntilSelection cas h s None = Parents cas h s \<and>
   FindSelection sliceContains s None = Some (Inr (pushStack s [])) \<and>
   ClosestSelection h s None = Some (Inr (pushStack s [])) \<and>
   Nodes (pushStack s []) = []"
  by (simp add: NextUntilSelection_def PrevUntilSelection_def ParentsUntilSelection_def
      FindSelection_def ClosestSelection_def pushStack_of_def pushStack_def)

text \<open>On the selection of the p of the example: the span and the em against nothing.\<close>

theorem nil_selection_asymmetry_witness:
  "NextUntilSelection matcher doc (Selection [Some 3] None None) None =
     Some (Inr (Selection [Some 5, Some 6] None (Some (Selection [Some 3] None None)))) \<and>
   NextAll matcher doc (Selection [Some 3] None None) =
     Some (Inr (Selection [Some 5, Some 6] None (Some (Selection [Some 3] None None)))) \<and>
   FindSelection (\<lambda>container n. Some (Inr True)) (Selection [Some 3] None None) None =
     Some (Inr (Selection [] None (Some (Selection [Some 3] None None)))) \<and>
   ClosestSelection doc (Selection [Some 3] None None) None =
     Some (Inr (Selection [] None (Some (Selection [Some 3] None None))))"
proof -
  have c: "chain (next_of doc) (next_of doc 3) [4, 5, 6]" by (simp add: doc_eval)
  have "getChildrenWithSiblingType doc (Parent (doc 3)) siblingNextAll (Some 3) None =
      Some (Inr (map Some (collect siblingNextAll (\<lambda>_. False) (filter (is_element doc) [4, 5, 6]))))"
    by (rule walk_forward [OF _ _ c]) (simp_all add: siblingType_defs)
  then have w: "getChildrenWithSiblingType doc (Parent (doc 3)) siblingNextAll (Some 3)
      (if siblingNextAll = siblingNextUntil \<or> siblingNextAll = siblingPrevUntil
       then Some (getSiblingNodes_until matcher [] []) else None) = Some (Inr (map Some [5, 6]))"
    by (simp add: doc_eval siblingType_defs)
  have "getSiblingNodes matcher doc [Some 3] siblingNextAll [] [] = Some (Inr (map Some [5, 6]))"
    by (rule getSiblingNodes_single [OF w]) simp
  then have na: "NextAll matcher doc (Selection [Some 3] None None) =
      Some (Inr (Selection [Some 5, Some 6] None (Some (Selection [Some 3] None None))))"
    by (simp add: NextAll_def pushStack_of_def pushStack_def)
  from nil_selection_asymmetry [of matcher doc "Selection [Some 3] None None"
      "\<lambda>container n. Some (Inr True)"] na
  show ?thesis by (simp add: pushStack_def)
qed

end
